theory Spec2Isabelle
  imports Main
begin

section \<open>Python string primitives used by the range parser\<close>

text \<open>
  Python strings are modelled as \<^typ>\<open>string\<close>, that is with code points
  below 256. The three built-ins that \<open>parse_page_range\<close> calls are written
  out: \<open>str.strip()\<close>, \<open>str.split(sep)\<close> and \<open>int(str)\<close>. \<open>strip\<close> removes
  the characters for which \<open>str.isspace()\<close> holds. \<open>int\<close> skips surrounding
  blanks of its own (the separators 28 to 31 are not among them), then accepts
  one optional sign and decimal digits that may be grouped by single
  underscores; everything else raises \<open>ValueError\<close>, which is the value
  \<open>None\<close> here. The parser passes only stripped strings to \<open>int\<close>. A
  literal with more digits than the interpreter's limit, 4300 by default and
  with leading zeros counted, raises \<open>ValueError\<close> as well.
\<close>

definition py_isspace :: "char \<Rightarrow> bool" where
  "py_isspace c = (of_char c \<in> {9, 10, 11, 12, 13, 28, 29, 30, 31, 32, 133, 160 :: nat})"

definition int_isspace :: "char \<Rightarrow> bool" where
  "int_isspace c = (of_char c \<in> {9, 10, 11, 12, 13, 32, 133, 160 :: nat})"

definition strip_with :: "(char \<Rightarrow> bool) \<Rightarrow> string \<Rightarrow> string" where
  "strip_with sp s = rev (dropWhile sp (rev (dropWhile sp s)))"

definition py_strip :: "string \<Rightarrow> string" where
  "py_strip s = strip_with py_isspace s"

fun split_from :: "char \<Rightarrow> string \<Rightarrow> string \<Rightarrow> string list" where
  "split_from sep cur [] = [rev cur]"
| "split_from sep cur (c # cs) =
     (if c = sep then rev cur # split_from sep [] cs else split_from sep (c # cur) cs)"

definition py_split :: "char \<Rightarrow> string \<Rightarrow> string list" where
  "py_split sep s = split_from sep [] s"

definition is_digit :: "char \<Rightarrow> bool" where
  "is_digit c = (48 \<le> (of_char c :: nat) \<and> (of_char c :: nat) \<le> 57)"

definition digit_val :: "char \<Rightarrow> int" where
  "digit_val c = int (of_char c) - 48"

fun parse_digits :: "int \<Rightarrow> bool \<Rightarrow> string \<Rightarrow> int option" where
  "parse_digits acc prev_digit [] = (if prev_digit then Some acc else None)"
| "parse_digits acc prev_digit (c # cs) =
     (if is_digit c then parse_digits (acc * 10 + digit_val c) True cs
      else if c = CHR ''_'' \<and> prev_digit then parse_digits acc False cs
      else None)"

definition max_str_digits :: nat where
  "max_str_digits = 4300"

definition parse_number :: "string \<Rightarrow> int option" where
  "parse_number cs =
     (case parse_digits 0 False cs of
        None \<Rightarrow> None
      | Some v \<Rightarrow> if length (filter is_digit cs) > max_str_digits then None else Some v)"

definition py_int :: "string \<Rightarrow> int option" where
  "py_int s =
     (case strip_with int_isspace s of
        [] \<Rightarrow> None
      | c # cs \<Rightarrow>
          if c = CHR ''+'' then parse_number cs
          else if c = CHR ''-'' then map_option uminus (parse_number cs)
          else parse_number (c # cs))"

section \<open>The range parser\<close>

datatype error = ValueError | IndexError | EngineError | OSError

text \<open>
  One iteration of the loop over the comma-separated parts. \<open>pages\<close> is the set
  built so far. The tuple assignment \<open>start, end = part.split('-')\<close> stands
  before the \<open>try\<close>, so a part that does not split into exactly two pieces
  raises \<open>ValueError\<close> out of the function; the conversions inside the \<open>try\<close>
  drop the part instead.
\<close>

definition process_part :: "int \<Rightarrow> int set \<Rightarrow> string \<Rightarrow> error + int set" where
  "process_part total_pages pages part0 =
     (let part = py_strip part0 in
      if part = [] then Inr pages
      else if CHR ''-'' \<in> set part then
        (case py_split CHR ''-'' part of
           [start, end'] \<Rightarrow>
             (case py_int (py_strip start) of
                None \<Rightarrow> Inr pages
              | Some s \<Rightarrow>
                 (case py_int (py_strip end') of
                    None \<Rightarrow> Inr pages
                  | Some e \<Rightarrow>
                      if s > e \<or> s < 1 \<or> e > total_pages then Inr pages
                      else Inr (pages \<union> {s..e})))
         | _ \<Rightarrow> Inl ValueError)
      else
        (case py_int part of
           None \<Rightarrow> Inr pages
         | Some page \<Rightarrow>
             if 1 \<le> page \<and> page \<le> total_pages then Inr (insert page pages)
             else Inr pages))"

fun parts_loop :: "int \<Rightarrow> int set \<Rightarrow> string list \<Rightarrow> error + int set" where
  "parts_loop total_pages pages [] = Inr pages"
| "parts_loop total_pages pages (part # parts) =
     (case process_part total_pages pages part of
        Inl e \<Rightarrow> Inl e
      | Inr pages' \<Rightarrow> parts_loop total_pages pages' parts)"

definition parse_page_range :: "string \<Rightarrow> int \<Rightarrow> error + int list" where
  "parse_page_range range_text total_pages =
     (case parts_loop total_pages {} (py_split CHR '','' range_text) of
        Inl e \<Rightarrow> Inl e
      | Inr pages \<Rightarrow> Inr (sorted_list_of_set pages))"

section \<open>Collaborators: PDF engine, image library, file system\<close>

text \<open>
  A document is the list of its pages. For each page the model records what the
  program can observe of the engine: the thumbnail that the block of
  \<open>load_pages\<close> (pixmap at scale 0.25, \<open>QImage\<close>, \<open>QPixmap\<close>) produces,
  \<open>None\<close> when it raises, the image that \<open>get_pixmap()\<close> followed by \<open>Image.frombytes\<close> yields in the
  export loops (\<open>None\<close> when one of them raises), and the page content that
  \<open>insert_pdf\<close> copies. The engine is only ever asked for rows of the
  thumbnail list, which lie below the page count; an index beyond it is modelled
  as an exception.
\<close>

record raster =
  width :: nat
  height :: nat
  samples :: "nat list"

record page =
  thumbnail :: "raster option"
  render :: "raster option"
  content :: nat

type_synonym document = "page list"

text \<open>\<open>Image.new("RGB", (w, h))\<close> followed by calls of \<open>paste\<close>.\<close>

record canvas =
  cwidth :: nat
  cheight :: nat
  pastes :: "(raster \<times> nat \<times> nat) list"

datatype file_data = PNG raster | PNG_combined canvas | PDF "nat list"

datatype effect = MakeDirs string | Save string file_data

text \<open>
  What the operating system answers: the working directory, which folders
  exist, and whether creating a folder or writing a file succeeds.
\<close>

record env =
  cwd :: string
  dir_exists :: "string \<Rightarrow> bool"
  makedirs_ok :: "string \<Rightarrow> bool"
  save_ok :: "string \<Rightarrow> bool"

definition os_path_join :: "string \<Rightarrow> string \<Rightarrow> string" where
  "os_path_join a b =
     (if b \<noteq> [] \<and> hd b = CHR ''/'' then b
      else if a = [] \<or> last a = CHR ''/'' then a @ b
      else a @ ''/'' @ b)"

definition os_path_basename :: "string \<Rightarrow> string" where
  "os_path_basename p = last (py_split CHR ''/'' p)"

fun py_str :: "nat \<Rightarrow> string" where
  "py_str n =
     (if n < 10 then [char_of (48 + n)]
      else py_str (n div 10) @ [char_of (48 + n mod 10)])"

declare py_str.simps [simp del]

datatype dialog = ShowError string | ShowErrorExn string error | ShowSuccess string

section \<open>The thumbnail list\<close>

text \<open>
  An item of the list widget is identified by the page number stored in its user
  data; its row is its position in the list. \<open>selection\<close> holds the selected
  items in the order in which \<open>selectedItems()\<close> returns them. The toolkit
  keeps the selection as a list of ranges to which each newly selected item is
  appended, and \<open>selectedItems()\<close> walks that list: the items come in the order
  in which they were selected, not in row order. The program never sorts them.
  The widget is in \<open>MultiSelection\<close> mode, where a click toggles the item under
  the cursor (\<open>click_item\<close>); \<open>setSelected\<close> is \<open>item.setSelected(True)\<close>.
\<close>

record thumbnail_list =
  items :: "nat list"
  selection :: "nat list"

definition count :: "thumbnail_list \<Rightarrow> nat" where
  "count pl = length (items pl)"

definition item :: "thumbnail_list \<Rightarrow> nat \<Rightarrow> nat" where
  "item pl r = items pl ! r"

fun index_of :: "nat \<Rightarrow> nat list \<Rightarrow> nat" where
  "index_of x [] = 0"
| "index_of x (y # ys) = (if x = y then 0 else Suc (index_of x ys))"

definition row :: "thumbnail_list \<Rightarrow> nat \<Rightarrow> nat" where
  "row pl it = index_of it (items pl)"

definition selectedItems :: "thumbnail_list \<Rightarrow> nat list" where
  "selectedItems pl = selection pl"

text \<open>\<open>[self.page_list.row(item) for item in selected_items]\<close>\<close>

definition page_nums :: "thumbnail_list \<Rightarrow> nat list" where
  "page_nums pl = map (row pl) (selectedItems pl)"

definition clear :: "thumbnail_list \<Rightarrow> thumbnail_list" where
  "clear pl = \<lparr>items = [], selection = []\<rparr>"

definition clearSelection :: "thumbnail_list \<Rightarrow> thumbnail_list" where
  "clearSelection pl = pl\<lparr>selection := []\<rparr>"

definition addItem :: "nat \<Rightarrow> thumbnail_list \<Rightarrow> thumbnail_list" where
  "addItem it pl = pl\<lparr>items := items pl @ [it]\<rparr>"

definition setSelected :: "nat \<Rightarrow> thumbnail_list \<Rightarrow> thumbnail_list" where
  "setSelected it pl = pl\<lparr>selection := removeAll it (selection pl) @ [it]\<rparr>"

definition click_item :: "nat \<Rightarrow> thumbnail_list \<Rightarrow> thumbnail_list" where
  "click_item r pl =
     (if r < count pl then
        (if item pl r \<in> set (selection pl)
         then pl\<lparr>selection := removeAll (item pl r) (selection pl)\<rparr>
         else pl\<lparr>selection := selection pl @ [item pl r]\<rparr>)
      else pl)"

fun load_loop :: "document \<Rightarrow> nat list \<Rightarrow> thumbnail_list \<Rightarrow> thumbnail_list" where
  "load_loop d [] pl = pl"
| "load_loop d (page_num # rest) pl =
     load_loop d rest
       (case thumbnail (d ! page_num) of
          None \<Rightarrow> pl
        | Some pix \<Rightarrow> addItem page_num pl)"

definition load_pages :: "document option \<Rightarrow> thumbnail_list \<Rightarrow> thumbnail_list" where
  "load_pages pdf_doc pl =
     (case pdf_doc of
        None \<Rightarrow> clear pl
      | Some d \<Rightarrow> if d = [] then clear pl else load_loop d [0..<length d] (clear pl))"

section \<open>The application\<close>

text \<open>
  The fields of the main window that the operations read or write. The status
  bar text and console output are display only and left out. A document object
  is false in a condition when it has no pages, as \<open>None\<close> is.
\<close>

record app =
  pdf_doc :: "document option"
  current_file :: "string option"
  page_list :: thumbnail_list
  range_input :: string
  folder_path :: string

definition init_app :: app where
  "init_app = \<lparr>pdf_doc = None, current_file = None,
               page_list = \<lparr>items = [], selection = []\<rparr>,
               range_input = [], folder_path = []\<rparr>"

definition no_document :: "app \<Rightarrow> bool" where
  "no_document s = (case pdf_doc s of None \<Rightarrow> True | Some d \<Rightarrow> d = [])"

text \<open>\<open>opened\<close> is what \<open>fitz.open(file_path)\<close> does: raise, or return a document.\<close>

definition load_pdf :: "error + document \<Rightarrow> string \<Rightarrow> app \<Rightarrow> dialog list \<times> app" where
  "load_pdf opened file_path s =
     (case opened of
        Inl e \<Rightarrow>
          ([ShowErrorExn (''Failed to load PDF:'' @ [CHR 0x0A]) e],
           s\<lparr>pdf_doc := None, current_file := None\<rparr>)
      | Inr d \<Rightarrow>
          ([], s\<lparr>pdf_doc := Some d, current_file := Some file_path,
                 page_list := load_pages (Some d) (page_list s)\<rparr>))"

text \<open>
  \<open>converted\<close> is \<open>None\<close> when the converter left no output file, and otherwise
  what opening that file does; \<open>pdf_path\<close> is the path of the expected output.
\<close>

definition convert_doc_to_pdf ::
  "(error + document) option \<Rightarrow> string \<Rightarrow> app \<Rightarrow> dialog list \<times> app" where
  "convert_doc_to_pdf converted pdf_path s =
     (case converted of
        None \<Rightarrow> ([ShowError ''Conversion failed. Please install LibreOffice.''], s)
      | Some opened \<Rightarrow>
          (let (ds, s') = load_pdf opened pdf_path s in
           (ds @ [ShowSuccess (''Converted to PDF: '' @ os_path_basename pdf_path)], s')))"

fun select_loop :: "int list \<Rightarrow> thumbnail_list \<Rightarrow> thumbnail_list" where
  "select_loop [] pl = pl"
| "select_loop (page_num # pages) pl =
     select_loop pages
       (if 0 \<le> page_num - 1 \<and> page_num - 1 < int (count pl)
        then setSelected (item pl (nat (page_num - 1))) pl
        else pl)"

definition select_pages :: "app \<Rightarrow> dialog list \<times> app" where
  "select_pages s =
     (if no_document s then ([ShowError ''No document loaded!''], s)
      else
        (let range_text = py_strip (range_input s) in
         if range_text = [] then ([ShowError ''Please enter a page range''], s)
         else
           (case parse_page_range range_text (int (length (the (pdf_doc s)))) of
              Inl e \<Rightarrow> ([ShowErrorExn (''Invalid page range:'' @ [CHR 0x0A]) e], s)
            | Inr pages \<Rightarrow>
                if pages = [] then ([ShowError ''No valid pages in the specified range''], s)
                else ([], s\<lparr>page_list := select_loop pages (clearSelection (page_list s))\<rparr>))))"

section \<open>Export\<close>

definition output_folder :: "env \<Rightarrow> app \<Rightarrow> string" where
  "output_folder env s =
     (if py_strip (folder_path s) = [] then os_path_join (cwd env) ''extracted_images''
      else py_strip (folder_path s))"

definition render_page :: "document \<Rightarrow> nat \<Rightarrow> raster option" where
  "render_page d page_num = (if page_num < length d then render (d ! page_num) else None)"

fun collect_images :: "document \<Rightarrow> nat list \<Rightarrow> raster list \<Rightarrow> raster list" where
  "collect_images d [] images = images"
| "collect_images d (page_num # rest) images =
     collect_images d rest
       (case render_page d page_num of
          None \<Rightarrow> images
        | Some img \<Rightarrow> images @ [img])"

definition paste :: "canvas \<Rightarrow> raster \<Rightarrow> nat \<times> nat \<Rightarrow> canvas" where
  "paste combined img pos = combined\<lparr>pastes := pastes combined @ [(img, fst pos, snd pos)]\<rparr>"

fun paste_loop :: "raster list \<Rightarrow> nat \<Rightarrow> canvas \<Rightarrow> canvas" where
  "paste_loop [] y_offset combined = combined"
| "paste_loop (img # images) y_offset combined =
     paste_loop images (y_offset + height img) (paste combined img (0, y_offset))"

definition extract_pages :: "env \<Rightarrow> app \<Rightarrow> dialog list \<times> effect list" where
  "extract_pages env s =
     (if no_document s then ([ShowError ''No document loaded!''], [])
      else if selectedItems (page_list s) = [] then ([ShowError ''No pages selected!''], [])
      else
        (let folder = output_folder env s;
             mk = (if dir_exists env folder then [] else [MakeDirs folder]) in
         if \<not> dir_exists env folder \<and> \<not> makedirs_ok env folder
         then ([ShowErrorExn (''Error during extraction:'' @ [CHR 0x0A]) OSError], [])
         else
           (let images = collect_images (the (pdf_doc s)) (page_nums (page_list s)) [] in
            if images = [] then ([ShowError ''No valid pages to extract''], mk)
            else
              (let max_width = Max (set (map width images));
                   total_height = sum_list (map height images);
                   combined = paste_loop images 0
                                \<lparr>cwidth = max_width, cheight = total_height, pastes = []\<rparr>;
                   output_path = os_path_join folder ''merged_pages.png'' in
               if save_ok env output_path
               then ([ShowSuccess (''Saved combined image to:'' @ [CHR 0x0A] @ output_path)],
                     mk @ [Save output_path (PNG_combined combined)])
               else ([ShowErrorExn (''Error during extraction:'' @ [CHR 0x0A]) OSError], mk)))))"

fun separate_loop ::
  "env \<Rightarrow> document \<Rightarrow> string \<Rightarrow> nat list \<Rightarrow> nat \<times> effect list \<Rightarrow> nat \<times> effect list" where
  "separate_loop env d folder [] acc = acc"
| "separate_loop env d folder (page_num # rest) (success_count, effs) =
     separate_loop env d folder rest
       (case render_page d page_num of
          None \<Rightarrow> (success_count, effs)
        | Some img \<Rightarrow>
            (let filename = ''page_'' @ py_str (page_num + 1) @ ''.png'' in
             if save_ok env (os_path_join folder filename)
             then (success_count + 1, effs @ [Save (os_path_join folder filename) (PNG img)])
             else (success_count, effs)))"

definition extract_separate_pages :: "env \<Rightarrow> app \<Rightarrow> dialog list \<times> effect list" where
  "extract_separate_pages env s =
     (if no_document s then ([ShowError ''No document loaded!''], [])
      else if selectedItems (page_list s) = [] then ([ShowError ''No pages selected!''], [])
      else
        (let folder = output_folder env s;
             mk = (if dir_exists env folder then [] else [MakeDirs folder]) in
         if \<not> dir_exists env folder \<and> \<not> makedirs_ok env folder
         then ([ShowErrorExn (''Error during extraction:'' @ [CHR 0x0A]) OSError], [])
         else
           (let (success_count, effs) =
                   separate_loop env (the (pdf_doc s)) folder (page_nums (page_list s)) (0, mk) in
            if success_count > 0
            then ([ShowSuccess (''Extracted '' @ py_str success_count @ '' pages to:''
                                @ [CHR 0x0A] @ folder)], effs)
            else ([ShowError ''Failed to extract any pages''], effs))))"

fun insert_loop :: "document \<Rightarrow> nat list \<Rightarrow> nat list \<Rightarrow> error + nat list" where
  "insert_loop d [] new_pdf = Inr new_pdf"
| "insert_loop d (page_num # rest) new_pdf =
     (if page_num < length d then insert_loop d rest (new_pdf @ [content (d ! page_num)])
      else Inl IndexError)"

text \<open>\<open>path\<close> is what the save dialog returns: empty when the user cancels.\<close>

definition extract_as_pdf :: "env \<Rightarrow> string \<Rightarrow> app \<Rightarrow> dialog list \<times> effect list" where
  "extract_as_pdf env path s =
     (if no_document s then ([ShowError ''No document loaded!''], [])
      else if selectedItems (page_list s) = [] then ([ShowError ''No pages selected!''], [])
      else if path = [] then ([], [])
      else
        (case insert_loop (the (pdf_doc s)) (page_nums (page_list s)) [] of
           Inl e \<Rightarrow> ([ShowErrorExn ''PDF save failed: '' e], [])
         | Inr new_pdf \<Rightarrow>
             if save_ok env path
             then ([ShowSuccess (''PDF saved to:'' @ [CHR 0x0A] @ path)], [Save path (PDF new_pdf)])
             else ([ShowErrorExn ''PDF save failed: '' OSError], [])))"

section \<open>Sessions\<close>

text \<open>
  The user actions that reach the operations above. Dropping a file loads it
  (a PDF) or converts and loads it (a DOC/DOCX); the exports leave the
  application state as it is.
\<close>

datatype event =
    DropPdf string "error + document"
  | DropDoc string "(error + document) option"
  | EditRange string
  | EditFolder string
  | ClickItem nat
  | ClickSelect
  | ClickExport

fun step :: "event \<Rightarrow> app \<Rightarrow> app" where
  "step (DropPdf file_path opened) s = snd (load_pdf opened file_path s)"
| "step (DropDoc pdf_path converted) s = snd (convert_doc_to_pdf converted pdf_path s)"
| "step (EditRange t) s = s\<lparr>range_input := t\<rparr>"
| "step (EditFolder t) s = s\<lparr>folder_path := t\<rparr>"
| "step (ClickItem r) s = s\<lparr>page_list := click_item r (page_list s)\<rparr>"
| "step ClickSelect s = snd (select_pages s)"
| "step ClickExport s = s"

definition run :: "event list \<Rightarrow> app" where
  "run evs = fold step evs init_app"

section \<open>Invariants and sample data\<close>

text \<open>Pages built by the parser so far are finite and within the document.\<close>

definition pages_ok :: "int \<Rightarrow> int set \<Rightarrow> bool" where
  "pages_ok total_pages pages = (finite pages \<and> (\<forall>p\<in>pages. 1 \<le> p \<and> p \<le> total_pages))"

text \<open>
  The items of the list are pairwise different, and the selection is a
  duplicate-free list of items of the list. While a document is loaded, the
  list has at most as many items as the document has pages.
\<close>

definition list_inv :: "thumbnail_list \<Rightarrow> bool" where
  "list_inv pl =
     (distinct (items pl) \<and> distinct (selection pl) \<and> set (selection pl) \<subseteq> set (items pl))"

definition app_inv :: "app \<Rightarrow> bool" where
  "app_inv s =
     (list_inv (page_list s)
      \<and> (case pdf_doc s of None \<Rightarrow> True | Some d \<Rightarrow> count (page_list s) \<le> length d))"

text \<open>What one iteration of the loop of \<open>extract_separate_pages\<close> writes, if anything.\<close>

definition page_file :: "env \<Rightarrow> document \<Rightarrow> string \<Rightarrow> nat \<Rightarrow> effect option" where
  "page_file env d folder page_num =
     (case render_page d page_num of
        None \<Rightarrow> None
      | Some img \<Rightarrow>
          if save_ok env (os_path_join folder (''page_'' @ py_str (page_num + 1) @ ''.png''))
          then Some (Save (os_path_join folder (''page_'' @ py_str (page_num + 1) @ ''.png''))
                      (PNG img))
          else None)"

text \<open>
  A three-page document whose second page cannot be rendered at full size, and
  an environment in which the output folder is created and every write succeeds.
\<close>

definition sample_page :: "nat \<Rightarrow> nat \<Rightarrow> nat \<Rightarrow> page" where
  "sample_page w h c =
     \<lparr>thumbnail = Some \<lparr>width = w div 4, height = h div 4, samples = [c]\<rparr>,
      render = Some \<lparr>width = w, height = h, samples = [c]\<rparr>,
      content = c\<rparr>"

definition broken_page :: "nat \<Rightarrow> page" where
  "broken_page c =
     \<lparr>thumbnail = Some \<lparr>width = 1, height = 1, samples = [c]\<rparr>, render = None, content = c\<rparr>"

definition sample_doc :: document where
  "sample_doc = [sample_page 600 800 10, broken_page 11, sample_page 500 700 12]"

definition sample_env :: env where
  "sample_env = \<lparr>cwd = ''/home/user'', dir_exists = (\<lambda>p. False),
                 makedirs_ok = (\<lambda>p. True), save_ok = (\<lambda>p. True)\<rparr>"

section \<open>Properties of the range parser\<close>

lemma split_from_no_sep: "sep \<notin> set s \<Longrightarrow> split_from sep cur s = [rev cur @ s]"
  by (induction s arbitrary: cur) auto

lemma py_split_two_has_sep:
  assumes "py_split sep s = [a, b]"
  shows "sep \<in> set s"
proof (rule ccontr)
  assume "sep \<notin> set s"
  then have "py_split sep s = [s]"
    by (simp add: py_split_def split_from_no_sep)
  with assms show False by simp
qed

lemma process_part_ok:
  "pages_ok t pages \<Longrightarrow> process_part t pages part = Inr pages' \<Longrightarrow> pages_ok t pages'"
  unfolding process_part_def pages_ok_def Let_def
  by (auto split: if_splits list.splits option.splits)

lemma parts_loop_ok:
  "pages_ok t pages \<Longrightarrow> parts_loop t pages parts = Inr pages' \<Longrightarrow> pages_ok t pages'"
proof (induction parts arbitrary: pages)
  case Nil
  then show ?case by simp
next
  case (Cons part parts)
  then show ?case
    by (auto split: sum.splits dest: process_part_ok)
qed

lemma parse_page_range_sorted:
  assumes "parse_page_range range_text total_pages = Inr result"
  shows "sorted_wrt (<) result" and "distinct result"
    and "\<forall>p\<in>set result. 1 \<le> p \<and> p \<le> total_pages"
proof -
  from assms obtain pages
    where loop: "parts_loop total_pages {} (py_split CHR '','' range_text) = Inr pages"
      and res: "result = sorted_list_of_set pages"
    by (auto simp: parse_page_range_def split: sum.splits)
  have "pages_ok total_pages {}" by (simp add: pages_ok_def)
  from parts_loop_ok [OF this loop] have ok: "pages_ok total_pages pages" .
  then have fin: "finite pages" by (simp add: pages_ok_def)
  show "sorted_wrt (<) result" using res by simp
  show "distinct result" using res by simp
  show "\<forall>p\<in>set result. 1 \<le> p \<and> p \<le> total_pages"
    using ok fin res by (simp add: pages_ok_def)
qed

text \<open>
  Apart from a second hyphen in one part, nothing makes the parser raise: when
  every part splits at hyphens into at most two pieces, a list is returned.
  Tokens that are not numbers, pages out of bounds and empty parts are dropped.
\<close>

lemma split_from_nonempty: "split_from sep cur s \<noteq> []"
  by (induction s arbitrary: cur) auto

lemma split_from_sep_length: "sep \<in> set s \<Longrightarrow> 2 \<le> length (split_from sep cur s)"
proof (induction s arbitrary: cur)
  case Nil
  then show ?case by simp
next
  case (Cons c cs)
  show ?case
  proof (cases "c = sep")
    case True
    have "1 \<le> length (split_from sep [] cs)"
      using split_from_nonempty [of sep "[]" cs] by (cases "split_from sep [] cs") auto
    with True show ?thesis by simp
  next
    case False
    with Cons show ?thesis by simp
  qed
qed

lemma process_part_returns:
  assumes "length (py_split CHR ''-'' (py_strip part)) \<le> 2"
  shows "\<exists>pages'. process_part total_pages pages part = Inr pages'"
proof (cases "CHR ''-'' \<in> set (py_strip part)")
  case False
  then show ?thesis
    by (auto simp: process_part_def Let_def split: option.splits)
next
  case True
  then have "2 \<le> length (py_split CHR ''-'' (py_strip part))"
    by (simp add: py_split_def split_from_sep_length)
  with assms have "length (py_split CHR ''-'' (py_strip part)) = 2" by simp
  then obtain a b where "py_split CHR ''-'' (py_strip part) = [a, b]"
    by (auto simp: length_Suc_conv numeral_2_eq_2)
  then show ?thesis
    by (auto simp: process_part_def Let_def split: option.splits)
qed

lemma parts_loop_returns:
  "\<forall>part\<in>set parts. length (py_split CHR ''-'' (py_strip part)) \<le> 2 \<Longrightarrow>
   \<exists>pages'. parts_loop total_pages pages parts = Inr pages'"
proof (induction parts arbitrary: pages)
  case Nil
  then show ?case by simp
next
  case (Cons part parts)
  then obtain pages' where "process_part total_pages pages part = Inr pages'"
    using process_part_returns [of part total_pages pages] by auto
  moreover from Cons obtain pages'' where "parts_loop total_pages pages' parts = Inr pages''"
    by fastforce
  ultimately show ?case by simp
qed

lemma parse_returns_without_second_hyphen:
  "\<forall>part\<in>set (py_split CHR '','' range_text).
      length (py_split CHR ''-'' (py_strip part)) \<le> 2 \<Longrightarrow>
   \<exists>result. parse_page_range range_text total_pages = Inr result"
  using parts_loop_returns [of "py_split CHR '','' range_text" total_pages "{}"]
  by (auto simp: parse_page_range_def)

lemma parse_drops_invalid_tokens:
  "parse_page_range ''abc,2'' 10 = Inr [2]"
  "parse_page_range ''0,11'' 10 = Inr []"
  "parse_page_range '''' 10 = Inr []"
  "parse_page_range ''1,,2,'' 10 = Inr [1, 2]"
  by code_simp+

text \<open>
  C1. The text \<open>1,3-5,7\<close> with ten pages does not parse to \<open>[1,3,4,5,6,7]\<close>:
  page 6 is in no token.
\<close>

theorem parse_example_not_with_6:
  "parse_page_range ''1,3-5,7'' 10 \<noteq> Inr [1, 3, 4, 5, 6, 7]"
  by code_simp

text \<open>
  C1, as the code has it: the text \<open>1,3-5,7\<close> with ten pages parses to
  \<open>[1,3,4,5,7]\<close>.
\<close>

theorem parse_example: "parse_page_range ''1,3-5,7'' 10 = Inr [1, 3, 4, 5, 7]"
  by code_simp

text \<open>
  C2. The parser does not return normally on every text: a part with two
  hyphens, as in \<open>1-2-3\<close>, raises \<open>ValueError\<close> at the tuple assignment, which
  stands outside the \<open>try\<close> block.
\<close>

theorem parse_two_hyphens_raises: "parse_page_range ''1-2-3'' 10 = Inl ValueError"
  by code_simp

lemma span_part_contribution:
  assumes "py_split CHR ''-'' (py_strip part) = [a, b]"
    and "py_int (py_strip a) = Some A" and "py_int (py_strip b) = Some B"
  shows "process_part total_pages pages part =
          Inr (pages \<union> (if A \<le> B \<and> 1 \<le> A \<and> B \<le> total_pages then {A..B} else {}))"
proof -
  from assms(1) have dash: "CHR ''-'' \<in> set (py_strip part)"
    by (rule py_split_two_has_sep)
  then have ne: "py_strip part \<noteq> []" by auto
  from assms dash ne show ?thesis
    by (auto simp: process_part_def Let_def)
qed

lemma empty_part_contribution: "process_part total_pages pages [] = Inr pages"
  by (simp add: process_part_def py_strip_def strip_with_def)

lemma parts_loop_append:
  "parts_loop t pages (xs @ ys) =
     (case parts_loop t pages xs of Inl e \<Rightarrow> Inl e | Inr pages' \<Rightarrow> parts_loop t pages' ys)"
  by (induction xs arbitrary: pages) (auto split: sum.splits)

lemma process_part_additive:
  "process_part t pages part =
     (case process_part t {} part of Inl e \<Rightarrow> Inl e | Inr X \<Rightarrow> Inr (pages \<union> X))"
  unfolding process_part_def Let_def
  by (auto split: list.splits option.splits)

lemma parts_loop_additive:
  "parts_loop t pages parts =
     (case parts_loop t {} parts of Inl e \<Rightarrow> Inl e | Inr X \<Rightarrow> Inr (pages \<union> X))"
proof (induction parts arbitrary: pages)
  case Nil
  then show ?case by simp
next
  case (Cons part parts)
  show ?case
  proof (cases "process_part t {} part")
    case (Inl e)
    then have "process_part t pages part = Inl e"
      using process_part_additive [of t pages part] by simp
    with Inl show ?thesis by simp
  next
    case (Inr X)
    then have step: "process_part t pages part = Inr (pages \<union> X)"
      using process_part_additive [of t pages part] by simp
    have "parts_loop t (pages \<union> X) parts =
            (case parts_loop t {} parts of Inl e \<Rightarrow> Inl e | Inr Y \<Rightarrow> Inr ((pages \<union> X) \<union> Y))"
      by (rule Cons.IH)
    moreover have "parts_loop t X parts =
            (case parts_loop t {} parts of Inl e \<Rightarrow> Inl e | Inr Y \<Rightarrow> Inr (X \<union> Y))"
      by (rule Cons.IH)
    ultimately show ?thesis using Inr step
      by (auto split: sum.splits)
  qed
qed

text \<open>
  What holds of spans whose numbers carry no minus sign, on the whole function:
  replacing the span token \<open>A-B\<close> by an empty token in the text changes the
  result by exactly \<open>A..B\<close> when \<open>A \<le> B\<close>, \<open>1 \<le> A\<close> and \<open>B \<le> total_pages\<close>,
  and by nothing otherwise.
\<close>

lemma span_token_contribution:
  assumes "py_split CHR '','' range_text = ps1 @ part # ps2"
    and "py_split CHR '','' range_text' = ps1 @ [] # ps2"
    and "py_split CHR ''-'' (py_strip part) = [a, b]"
    and "py_int (py_strip a) = Some A" and "py_int (py_strip b) = Some B"
  shows "parse_page_range range_text total_pages =
     (case parse_page_range range_text' total_pages of
        Inl e \<Rightarrow> Inl e
      | Inr result \<Rightarrow>
          Inr (sorted_list_of_set
                (set result \<union> (if A \<le> B \<and> 1 \<le> A \<and> B \<le> total_pages then {A..B} else {}))))"
proof -
  define S where "S = (if A \<le> B \<and> 1 \<le> A \<and> B \<le> total_pages then {A..B} else {})"
  have ok0: "pages_ok total_pages {}" by (simp add: pages_ok_def)
  show ?thesis
  proof (cases "parts_loop total_pages {} ps1")
    case (Inl e)
    then show ?thesis
      by (simp add: parse_page_range_def assms(1,2) parts_loop_append)
  next
    case (Inr P1)
    have with_span: "parts_loop total_pages {} (ps1 @ part # ps2) = parts_loop total_pages (P1 \<union> S) ps2"
      using Inr span_part_contribution [OF assms(3,4,5), of total_pages P1]
      by (simp add: parts_loop_append S_def)
    have without: "parts_loop total_pages {} (ps1 @ [] # ps2) = parts_loop total_pages P1 ps2"
      using Inr by (simp add: parts_loop_append empty_part_contribution)
    show ?thesis
    proof (cases "parts_loop total_pages {} ps2")
      case (Inl e)
      then have "parts_loop total_pages (P1 \<union> S) ps2 = Inl e"
        and "parts_loop total_pages P1 ps2 = Inl e"
        using parts_loop_additive [of total_pages "P1 \<union> S" ps2]
          parts_loop_additive [of total_pages P1 ps2] by simp_all
      then show ?thesis
        by (simp add: parse_page_range_def assms(1,2) with_span without)
    next
      case (Inr P2)
      then have r1: "parts_loop total_pages (P1 \<union> S) ps2 = Inr ((P1 \<union> S) \<union> P2)"
        and r2: "parts_loop total_pages P1 ps2 = Inr (P1 \<union> P2)"
        using parts_loop_additive [of total_pages "P1 \<union> S" ps2]
          parts_loop_additive [of total_pages P1 ps2] by simp_all
      from r2 without have "parts_loop total_pages {} (ps1 @ [] # ps2) = Inr (P1 \<union> P2)"
        by simp
      from parts_loop_ok [OF ok0 this] have "finite (P1 \<union> P2)"
        by (simp add: pages_ok_def)
      then have "set (sorted_list_of_set (P1 \<union> P2)) = P1 \<union> P2" by simp
      moreover have "(P1 \<union> S) \<union> P2 = (P1 \<union> P2) \<union> S" by auto
      ultimately show ?thesis
        using r1 r2
        by (simp add: parse_page_range_def assms(1,2) with_span without S_def)
    qed
  qed
qed

lemma span_token_examples:
  "parse_page_range ''5-2'' 10 = Inr []"
  "parse_page_range ''2, 3 - 5'' 10 = Inr [2, 3, 4, 5]"
  "parse_page_range ''2,9-11'' 10 = Inr [2]"
  "parse_page_range ''2,0-3'' 10 = Inr [2]"
  by code_simp+

text \<open>
  C4. A reversed or out-of-bounds span does not always contribute nothing: when
  one of its numbers is negative the part holds two hyphens, and the parser
  raises \<open>ValueError\<close> instead of dropping the span. The reversed span \<open>5--2\<close>
  (from 5 to -2) with ten pages raises, and so does \<open>2,-1-3\<close>, where the valid
  page 2 is lost with it.
\<close>

theorem parse_negative_span_raises:
  "parse_page_range ''5--2'' 10 = Inl ValueError
   \<and> parse_page_range ''2,-1-3'' 10 = Inl ValueError"
  by code_simp

text \<open>
  C5. Whenever the parser returns a list, the list is strictly ascending, has
  no duplicates, and all its elements lie between 1 and \<open>total_pages\<close>.
\<close>

theorem parse_page_range_ascending_in_bounds:
  assumes "parse_page_range range_text total_pages = Inr result"
  shows "sorted_wrt (<) result \<and> distinct result
         \<and> (\<forall>p\<in>set result. 1 \<le> p \<and> p \<le> total_pages)"
  using parse_page_range_sorted [OF assms] by simp

theorem parse_page_range_ascending_in_bounds_witness:
  "parse_page_range ''4, 1-2,2'' 5 = Inr [1, 2, 4]
   \<and> sorted_wrt (<) [1, 2, 4 :: int] \<and> distinct [1, 2, 4 :: int]
   \<and> set [1, 2, 4 :: int] \<subseteq> {1..5}"
proof -
  have h: "parse_page_range ''4, 1-2,2'' 5 = Inr [1, 2, 4]" by code_simp
  from parse_page_range_ascending_in_bounds [OF h] h show ?thesis by simp
qed


section \<open>Properties of the selection\<close>

lemma index_of_nth: "distinct xs \<Longrightarrow> i < length xs \<Longrightarrow> index_of (xs ! i) xs = i"
proof (induction xs arbitrary: i)
  case Nil
  then show ?case by simp
next
  case (Cons x xs)
  then show ?case by (cases i) auto
qed

lemma index_of_less: "x \<in> set xs \<Longrightarrow> index_of x xs < length xs"
  by (induction xs) auto

lemma nth_index_of: "x \<in> set xs \<Longrightarrow> xs ! index_of x xs = x"
  by (induction xs) auto

lemma load_loop_items:
  "items (load_loop d ns pl) = items pl @ filter (\<lambda>n. thumbnail (d ! n) \<noteq> None) ns"
  by (induction ns arbitrary: pl) (auto simp: addItem_def split: option.splits)

lemma load_loop_selection: "selection (load_loop d ns pl) = selection pl"
  by (induction ns arbitrary: pl) (auto simp: addItem_def split: option.splits)

lemma load_pages_items:
  "items (load_pages (Some d) pl) = filter (\<lambda>n. thumbnail (d ! n) \<noteq> None) [0..<length d]"
  by (simp add: load_pages_def load_loop_items clear_def)

lemma load_pages_selection: "selection (load_pages doc pl) = []"
  by (simp add: load_pages_def load_loop_selection clear_def split: option.splits)

lemma load_pages_inv: "list_inv (load_pages (Some d) pl)"
  by (simp add: list_inv_def load_pages_items load_pages_selection)

lemma load_pages_count: "count (load_pages (Some d) pl) \<le> length d"
proof -
  have "length (filter (\<lambda>n. thumbnail (d ! n) \<noteq> None) [0..<length d]) \<le> length [0..<length d]"
    by (rule length_filter_le)
  then show ?thesis by (simp add: count_def load_pages_items)
qed

lemma load_pdf_inv: "app_inv s \<Longrightarrow> app_inv (snd (load_pdf opened file_path s))"
  by (cases opened) (simp_all add: load_pdf_def app_inv_def load_pages_inv load_pages_count)

lemma convert_inv: "app_inv s \<Longrightarrow> app_inv (snd (convert_doc_to_pdf converted pdf_path s))"
  by (cases converted) (simp_all add: convert_doc_to_pdf_def load_pdf_inv split_beta)

lemma setSelected_items: "items (setSelected it pl) = items pl"
  by (simp add: setSelected_def)

lemma setSelected_new:
  "it \<notin> set (selection pl) \<Longrightarrow> setSelected it pl = pl\<lparr>selection := selection pl @ [it]\<rparr>"
  by (simp add: setSelected_def)

lemma select_loop_items: "items (select_loop pages pl) = items pl"
  by (induction pages arbitrary: pl) (auto simp: setSelected_items count_def)

lemma setSelected_inv: "list_inv pl \<Longrightarrow> it \<in> set (items pl) \<Longrightarrow> list_inv (setSelected it pl)"
  by (auto simp: setSelected_def list_inv_def distinct_removeAll)

lemma select_loop_inv: "list_inv pl \<Longrightarrow> list_inv (select_loop pages pl)"
proof (induction pages arbitrary: pl)
  case Nil
  then show ?case by simp
next
  case (Cons p pages)
  show ?case
  proof (cases "0 \<le> p - 1 \<and> p - 1 < int (count pl)")
    case True
    then have "nat (p - 1) < length (items pl)"
      unfolding count_def by linarith
    then have "item pl (nat (p - 1)) \<in> set (items pl)"
      by (simp add: item_def)
    with Cons.prems have "list_inv (setSelected (item pl (nat (p - 1))) pl)"
      by (rule setSelected_inv)
    then have "list_inv (select_loop pages (setSelected (item pl (nat (p - 1))) pl))"
      by (rule Cons.IH)
    moreover from True
    have "select_loop (p # pages) pl = select_loop pages (setSelected (item pl (nat (p - 1))) pl)"
      by simp
    ultimately show ?thesis by simp
  next
    case False
    then have "select_loop (p # pages) pl = select_loop pages pl" by auto
    with Cons show ?thesis by simp
  qed
qed

lemma clearSelection_inv: "list_inv pl \<Longrightarrow> list_inv (clearSelection pl)"
  by (simp add: list_inv_def clearSelection_def)

lemma select_pages_cases:
  "select_pages s = (ds, s') \<Longrightarrow>
     s' = s \<or> (\<exists>pages. s' = s\<lparr>page_list := select_loop pages (clearSelection (page_list s))\<rparr>)"
  by (auto simp: select_pages_def Let_def split: if_splits sum.splits)

lemma select_pages_inv: "app_inv s \<Longrightarrow> app_inv (snd (select_pages s))"
proof -
  assume inv: "app_inv s"
  obtain ds s' where eq: "select_pages s = (ds, s')" by (cases "select_pages s")
  from select_pages_cases [OF eq] show ?thesis
  proof
    assume "s' = s"
    with inv eq show ?thesis by simp
  next
    assume "\<exists>pages. s' = s\<lparr>page_list := select_loop pages (clearSelection (page_list s))\<rparr>"
    then obtain pages where s': "s' = s\<lparr>page_list := select_loop pages (clearSelection (page_list s))\<rparr>"
      by blast
    from inv have "list_inv (select_loop pages (clearSelection (page_list s)))"
      by (simp add: app_inv_def select_loop_inv clearSelection_inv)
    moreover have "count (select_loop pages (clearSelection (page_list s))) = count (page_list s)"
      by (simp add: count_def select_loop_items clearSelection_def)
    ultimately show ?thesis using inv eq s'
      by (simp add: app_inv_def split: option.splits)
  qed
qed

lemma click_item_inv: "list_inv pl \<Longrightarrow> list_inv (click_item r pl)"
  by (auto simp: click_item_def list_inv_def item_def count_def distinct_removeAll)

lemma click_item_count: "count (click_item r pl) = count pl"
  by (simp add: click_item_def count_def)

lemma step_inv: "app_inv s \<Longrightarrow> app_inv (step ev s)"
proof (cases ev)
  case (ClickItem r)
  assume "app_inv s"
  then show ?thesis using ClickItem
    by (simp add: app_inv_def click_item_inv click_item_count split: option.splits)
qed (simp_all add: load_pdf_inv convert_inv select_pages_inv,
     simp_all add: app_inv_def split: option.splits)

lemma fold_step_inv: "app_inv s \<Longrightarrow> app_inv (fold step evs s)"
  by (induction evs arbitrary: s) (simp_all add: step_inv)

lemma run_inv: "app_inv (run evs)"
  unfolding run_def
  by (rule fold_step_inv) (simp add: app_inv_def list_inv_def init_app_def count_def)

lemma page_nums_less_count: "list_inv pl \<Longrightarrow> n \<in> set (page_nums pl) \<Longrightarrow> n < count pl"
  by (auto simp: page_nums_def selectedItems_def row_def list_inv_def count_def
      intro: index_of_less)

text \<open>
  C7. Loading a document empties the selection, whatever was selected before
  and however many pages the new document has; and in every state that a
  session can reach, each selected page offset is below the page count of the
  loaded document.
\<close>

theorem load_resets_selection:
  "selectedItems (page_list (snd (load_pdf (Inr d) file_path s))) = []
   \<and> pdf_doc (snd (load_pdf (Inr d) file_path s)) = Some d
   \<and> (pdf_doc (run evs) = Some d'
        \<longrightarrow> (\<forall>n\<in>set (page_nums (page_list (run evs))). n < length d'))"
proof (intro conjI impI ballI)
  show "selectedItems (page_list (snd (load_pdf (Inr d) file_path s))) = []"
    by (simp add: load_pdf_def selectedItems_def load_pages_selection)
  show "pdf_doc (snd (load_pdf (Inr d) file_path s)) = Some d"
    by (simp add: load_pdf_def)
next
  fix n
  assume doc: "pdf_doc (run evs) = Some d'"
    and n: "n \<in> set (page_nums (page_list (run evs)))"
  have inv: "app_inv (run evs)" by (rule run_inv)
  then have "n < count (page_list (run evs))"
    using n by (simp add: app_inv_def page_nums_less_count)
  moreover from inv doc have "count (page_list (run evs)) \<le> length d'"
    by (simp add: app_inv_def)
  ultimately show "n < length d'" by simp
qed

theorem load_resets_selection_witness:
  "pdf_doc (run [DropPdf ''a.pdf'' (Inr sample_doc), ClickItem 2,
                 DropPdf ''b.pdf'' (Inr [sample_page 1 1 1, sample_page 2 2 2]), ClickItem 1])
     = Some [sample_page 1 1 1, sample_page 2 2 2]
   \<and> page_nums (page_list (run [DropPdf ''a.pdf'' (Inr sample_doc), ClickItem 2,
                 DropPdf ''b.pdf'' (Inr [sample_page 1 1 1, sample_page 2 2 2]), ClickItem 1]))
     = [1]
   \<and> 1 < length [sample_page 1 1 1, sample_page 2 2 2]
   \<and> selectedItems (page_list (run [DropPdf ''a.pdf'' (Inr sample_doc), ClickItem 2])) = [2]
   \<and> selectedItems (page_list (snd (load_pdf (Inr [sample_page 1 1 1, sample_page 2 2 2])
         ''b.pdf'' (run [DropPdf ''a.pdf'' (Inr sample_doc), ClickItem 2])))) = []"
proof -
  have doc: "pdf_doc (run [DropPdf ''a.pdf'' (Inr sample_doc), ClickItem 2,
                 DropPdf ''b.pdf'' (Inr [sample_page 1 1 1, sample_page 2 2 2]), ClickItem 1])
     = Some [sample_page 1 1 1, sample_page 2 2 2]"
    by code_simp
  have sel: "page_nums (page_list (run [DropPdf ''a.pdf'' (Inr sample_doc), ClickItem 2,
                 DropPdf ''b.pdf'' (Inr [sample_page 1 1 1, sample_page 2 2 2]), ClickItem 1]))
     = [1]"
    by code_simp
  have before: "selectedItems (page_list (run [DropPdf ''a.pdf'' (Inr sample_doc), ClickItem 2]))
     = [2]"
    by code_simp
  show ?thesis
    using load_resets_selection [of "[sample_page 1 1 1, sample_page 2 2 2]" "''b.pdf''"
        "run [DropPdf ''a.pdf'' (Inr sample_doc), ClickItem 2]"
        "[DropPdf ''a.pdf'' (Inr sample_doc), ClickItem 2,
          DropPdf ''b.pdf'' (Inr [sample_page 1 1 1, sample_page 2 2 2]), ClickItem 1]"
        "[sample_page 1 1 1, sample_page 2 2 2]"]
      doc sel before
    by simp
qed

lemma select_loop_selection:
  assumes "distinct (items pl)" and "distinct pages" and "\<forall>p\<in>set pages. 1 \<le> p"
    and "\<forall>p\<in>set pages. p - 1 < int (count pl) \<longrightarrow> items pl ! nat (p - 1) \<notin> set (selection pl)"
  shows "selection (select_loop pages pl) =
           selection pl @ map (\<lambda>p. items pl ! nat (p - 1))
                              (filter (\<lambda>p. p - 1 < int (count pl)) pages)"
  using assms
proof (induction pages arbitrary: pl)
  case Nil
  then show ?case by simp
next
  case (Cons p pages)
  from Cons.prems have p1: "1 \<le> p" by simp
  show ?case
  proof (cases "p - 1 < int (count pl)")
    case False
    then have "select_loop (p # pages) pl = select_loop pages pl" by auto
    moreover have "selection (select_loop pages pl) =
           selection pl @ map (\<lambda>p. items pl ! nat (p - 1))
                              (filter (\<lambda>p. p - 1 < int (count pl)) pages)"
      using Cons.prems by (intro Cons.IH) auto
    ultimately show ?thesis using False by simp
  next
    case True
    define it where "it = items pl ! nat (p - 1)"
    define pl' where "pl' = pl\<lparr>selection := selection pl @ [it]\<rparr>"
    from True Cons.prems have fresh: "it \<notin> set (selection pl)"
      by (simp add: it_def)
    have step: "select_loop (p # pages) pl = select_loop pages pl'"
      using True p1 fresh by (simp add: item_def pl'_def setSelected_new it_def)
    have items': "items pl' = items pl" and cnt': "count pl' = count pl"
      by (simp_all add: pl'_def count_def)
    have other: "\<forall>q\<in>set pages. q - 1 < int (count pl') \<longrightarrow> items pl' ! nat (q - 1) \<notin> set (selection pl')"
    proof (intro ballI impI)
      fix q
      assume q: "q \<in> set pages" and qlt: "q - 1 < int (count pl')"
      from q Cons.prems have q1: "1 \<le> q" and qp: "q \<noteq> p" by auto
      from qlt q1 cnt' have qi: "nat (q - 1) < length (items pl)"
        unfolding count_def by linarith
      from True p1 have pi: "nat (p - 1) < length (items pl)"
        unfolding count_def by linarith
      from q1 p1 qp have "nat (q - 1) \<noteq> nat (p - 1)" by linarith
      with Cons.prems(1) qi pi have "items pl ! nat (q - 1) \<noteq> it"
        by (simp add: it_def nth_eq_iff_index_eq)
      moreover from q qlt cnt' Cons.prems have "items pl ! nat (q - 1) \<notin> set (selection pl)"
        by simp
      ultimately show "items pl' ! nat (q - 1) \<notin> set (selection pl')"
        by (simp add: pl'_def)
    qed
    have "selection (select_loop pages pl') =
           selection pl' @ map (\<lambda>p. items pl' ! nat (p - 1))
                              (filter (\<lambda>p. p - 1 < int (count pl')) pages)"
      using Cons.prems other by (intro Cons.IH) (simp_all add: items')
    then have "selection (select_loop pages pl') =
           (selection pl @ [it]) @ map (\<lambda>p. items pl ! nat (p - 1))
                              (filter (\<lambda>p. p - 1 < int (count pl)) pages)"
      by (simp add: items' cnt') (simp add: pl'_def)
    then show ?thesis using True step
      by (simp add: it_def)
  qed
qed

lemma offsets_ascending:
  "sorted_wrt (<) pages \<Longrightarrow> \<forall>p\<in>set pages. 1 \<le> p \<Longrightarrow>
   sorted_wrt (<) (map (\<lambda>p. nat (p - 1)) (filter P pages))"
  by (induction pages) auto

lemma select_loop_page_nums:
  assumes "distinct (items pl)" and "sorted_wrt (<) pages" and "\<forall>p\<in>set pages. 1 \<le> p"
  shows "page_nums (select_loop pages (clearSelection pl)) =
           map (\<lambda>p. nat (p - 1)) (filter (\<lambda>p. p - 1 < int (count pl)) pages)"
proof -
  let ?pl = "clearSelection pl"
  have its: "items ?pl = items pl" and cnt: "count ?pl = count pl" and sel: "selection ?pl = []"
    by (simp_all add: clearSelection_def count_def)
  from assms(2) have dp: "distinct pages"
    by (simp add: strict_sorted_iff)
  have "selection (select_loop pages ?pl) =
          selection ?pl @ map (\<lambda>p. items ?pl ! nat (p - 1))
                              (filter (\<lambda>p. p - 1 < int (count ?pl)) pages)"
    using assms dp by (intro select_loop_selection) (simp_all add: its sel)
  then have selq: "selection (select_loop pages ?pl) =
      map (\<lambda>p. items pl ! nat (p - 1)) (filter (\<lambda>p. p - 1 < int (count pl)) pages)"
    by (simp add: its cnt sel)
  have "index_of (items pl ! nat (p - 1)) (items pl) = nat (p - 1)"
    if "p \<in> set pages" "p - 1 < int (count pl)" for p
  proof -
    from that assms(3) have "nat (p - 1) < length (items pl)"
      unfolding count_def by auto
    with assms(1) show ?thesis by (rule index_of_nth)
  qed
  then have "map (\<lambda>it. index_of it (items pl))
               (map (\<lambda>p. items pl ! nat (p - 1)) (filter (\<lambda>p. p - 1 < int (count pl)) pages))
        = map (\<lambda>p. nat (p - 1)) (filter (\<lambda>p. p - 1 < int (count pl)) pages)"
    by simp
  then show ?thesis
    by (simp add: page_nums_def selectedItems_def row_def selq select_loop_items its)
qed

lemma select_pages_success:
  assumes "\<not> no_document s" and "py_strip (range_input s) \<noteq> []"
    and "parse_page_range (py_strip (range_input s)) (int (length (the (pdf_doc s)))) = Inr pages"
    and "pages \<noteq> []"
  shows "select_pages s = ([], s\<lparr>page_list := select_loop pages (clearSelection (page_list s))\<rparr>)"
  using assms by (simp add: select_pages_def Let_def)

lemma select_pages_empty_dialog:
  assumes "fst (select_pages s) = []"
  shows "\<exists>pages. parse_page_range (py_strip (range_input s)) (int (length (the (pdf_doc s)))) = Inr pages
           \<and> snd (select_pages s) = s\<lparr>page_list := select_loop pages (clearSelection (page_list s))\<rparr>"
  using assms by (auto simp: select_pages_def Let_def split: if_splits sum.splits)

text \<open>
  C6. \<open>select_pages\<close> does not clear the prior selection on every input: with
  page 2 selected and the range text \<open>0\<close>, which names no valid page, page 2
  stays selected.
\<close>

theorem select_pages_keeps_selection_without_pages:
  "page_nums (page_list (run [DropPdf ''a.pdf'' (Inr sample_doc), ClickItem 1, EditRange ''0''])) = [1]
   \<and> page_nums (page_list (snd (select_pages
        (run [DropPdf ''a.pdf'' (Inr sample_doc), ClickItem 1, EditRange ''0''])))) = [1]"
  by code_simp

text \<open>
  C6, as the code has it. In a reachable state with a document loaded, when
  the range text parses to a non-empty list of pages, \<open>select_pages\<close> replaces
  the selection: afterwards the selected offsets are exactly the parsed pages
  that have a row in the list, each less one, in ascending order. With three
  pages, page 2 selected and the text \<open>3,1\<close>, the selected offsets become
  \<open>[0, 2]\<close>.
\<close>

theorem select_pages_marks_parsed_pages:
  "(s = run evs \<and> \<not> no_document s \<and> py_strip (range_input s) \<noteq> []
      \<and> parse_page_range (py_strip (range_input s)) (int (length (the (pdf_doc s)))) = Inr pages
      \<and> pages \<noteq> []
    \<longrightarrow> fst (select_pages s) = []
        \<and> page_nums (page_list (snd (select_pages s))) =
            map (\<lambda>p. nat (p - 1)) (filter (\<lambda>p. p - 1 < int (count (page_list s))) pages)
        \<and> sorted_wrt (<) (page_nums (page_list (snd (select_pages s)))))
   \<and> page_nums (page_list (run [DropPdf ''a.pdf'' (Inr sample_doc), ClickItem 1,
                                 EditRange ''3,1'', ClickSelect])) = [0, 2]"
proof (intro conjI impI)
  assume h: "s = run evs \<and> \<not> no_document s \<and> py_strip (range_input s) \<noteq> []
      \<and> parse_page_range (py_strip (range_input s)) (int (length (the (pdf_doc s)))) = Inr pages
      \<and> pages \<noteq> []"
  then have "\<not> no_document s" and "py_strip (range_input s) \<noteq> []"
    and "parse_page_range (py_strip (range_input s)) (int (length (the (pdf_doc s)))) = Inr pages"
    and "pages \<noteq> []"
    by blast+
  then have eq: "select_pages s =
      ([], s\<lparr>page_list := select_loop pages (clearSelection (page_list s))\<rparr>)"
    by (rule select_pages_success)
  from h have "app_inv s" by (simp add: run_inv)
  then have dist: "distinct (items (page_list s))"
    by (simp add: app_inv_def list_inv_def)
  from h have asc: "sorted_wrt (<) pages" and pos: "\<forall>p\<in>set pages. 1 \<le> p"
    using parse_page_range_sorted by blast+
  show "fst (select_pages s) = []" using eq by simp
  show nums: "page_nums (page_list (snd (select_pages s))) =
            map (\<lambda>p. nat (p - 1)) (filter (\<lambda>p. p - 1 < int (count (page_list s))) pages)"
    using eq select_loop_page_nums [OF dist asc pos] by simp
  show "sorted_wrt (<) (page_nums (page_list (snd (select_pages s))))"
    unfolding nums using asc pos by (rule offsets_ascending)
next
  show "page_nums (page_list (run [DropPdf ''a.pdf'' (Inr sample_doc), ClickItem 1,
                                 EditRange ''3,1'', ClickSelect])) = [0, 2]"
    by code_simp
qed

theorem select_pages_marks_parsed_pages_witness:
  "fst (select_pages (run [DropPdf ''a.pdf'' (Inr sample_doc), ClickItem 1, EditRange '' 2-3 ''])) = []
   \<and> page_nums (page_list (snd (select_pages
        (run [DropPdf ''a.pdf'' (Inr sample_doc), ClickItem 1, EditRange '' 2-3 ''])))) = [1, 2]"
proof -
  let ?evs = "[DropPdf ''a.pdf'' (Inr sample_doc), ClickItem 1, EditRange '' 2-3 '']"
  have a: "\<not> no_document (run ?evs)" by code_simp
  have b: "py_strip (range_input (run ?evs)) \<noteq> []" by code_simp
  have c: "parse_page_range (py_strip (range_input (run ?evs)))
             (int (length (the (pdf_doc (run ?evs))))) = Inr [2, 3]" by code_simp
  have d: "map (\<lambda>p. nat (p - 1)) (filter (\<lambda>p. p - 1 < int (count (page_list (run ?evs)))) [2, 3])
           = [1, 2]" by code_simp
  show ?thesis
    using select_pages_marks_parsed_pages [of "run ?evs" ?evs "[2, 3]"] a b c d
    by simp
qed

text \<open>
  C10. When a document is loaded and the non-blank range text parses to no
  valid page, \<open>select_pages\<close> shows the error "No valid pages in the specified
  range" and returns the state unchanged, the selection included.
\<close>

theorem select_pages_no_valid_pages:
  assumes "\<not> no_document s" and "py_strip (range_input s) \<noteq> []"
    and "parse_page_range (py_strip (range_input s)) (int (length (the (pdf_doc s)))) = Inr []"
  shows "select_pages s = ([ShowError ''No valid pages in the specified range''], s)"
  using assms by (simp add: select_pages_def Let_def)

theorem select_pages_no_valid_pages_witness:
  "selectedItems (page_list (run [DropPdf ''a.pdf'' (Inr sample_doc), ClickItem 2, ClickItem 0,
                                  EditRange ''7, 5-4, x''])) = [2, 0]
   \<and> select_pages (run [DropPdf ''a.pdf'' (Inr sample_doc), ClickItem 2, ClickItem 0,
                        EditRange ''7, 5-4, x''])
     = ([ShowError ''No valid pages in the specified range''],
        run [DropPdf ''a.pdf'' (Inr sample_doc), ClickItem 2, ClickItem 0, EditRange ''7, 5-4, x''])"
proof -
  let ?evs = "[DropPdf ''a.pdf'' (Inr sample_doc), ClickItem 2, ClickItem 0, EditRange ''7, 5-4, x'']"
  have a: "\<not> no_document (run ?evs)" by code_simp
  have b: "py_strip (range_input (run ?evs)) \<noteq> []" by code_simp
  have c: "parse_page_range (py_strip (range_input (run ?evs)))
             (int (length (the (pdf_doc (run ?evs))))) = Inr []" by code_simp
  have d: "selectedItems (page_list (run ?evs)) = [2, 0]" by code_simp
  show ?thesis
    using select_pages_no_valid_pages [OF a b c] d by simp
qed

section \<open>Properties of the exports\<close>

lemma insert_loop_map:
  "\<forall>n\<in>set ns. n < length d \<Longrightarrow>
   insert_loop d ns new_pdf = Inr (new_pdf @ map (\<lambda>n. content (d ! n)) ns)"
  by (induction ns arbitrary: new_pdf) auto

lemma collect_images_map_filter:
  "collect_images d ns images = images @ List.map_filter (render_page d) ns"
  by (induction ns arbitrary: images) (auto simp: map_filter_simps split: option.splits)

lemma separate_loop_map_filter:
  "separate_loop env d folder ns (success_count, effs) =
     (success_count + length (List.map_filter (page_file env d folder) ns),
      effs @ List.map_filter (page_file env d folder) ns)"
proof (induction ns arbitrary: success_count effs)
  case Nil
  then show ?case by (simp add: map_filter_simps)
next
  case (Cons n ns)
  show ?case
  proof (cases "page_file env d folder n")
    case None
    then have "separate_loop env d folder (n # ns) (success_count, effs) =
               separate_loop env d folder ns (success_count, effs)"
      by (auto simp: page_file_def Let_def split: option.splits if_splits)
    with None Cons.IH show ?thesis by (simp add: map_filter_simps)
  next
    case (Some eff)
    then have "separate_loop env d folder (n # ns) (success_count, effs) =
               separate_loop env d folder ns (success_count + 1, effs @ [eff])"
      by (auto simp: page_file_def Let_def split: option.splits if_splits)
    with Some Cons.IH show ?thesis by (simp add: map_filter_simps)
  qed
qed

lemma paste_loop_layout:
  "paste_loop images y_offset combined =
     combined\<lparr>pastes := pastes combined @
        map (\<lambda>k. (images ! k, 0, y_offset + sum_list (map height (take k images))))
            [0..<length images]\<rparr>"
proof (induction images arbitrary: y_offset combined)
  case Nil
  then show ?case by simp
next
  case (Cons img images)
  have upt: "[0..<length (img # images)] = 0 # map Suc [0..<length images]"
    by (simp add: upt_conv_Cons map_Suc_upt del: upt_Suc)
  show ?case
    unfolding upt by (simp add: Cons.IH paste_def o_def add.assoc)
qed

lemma extract_pages_saves:
  assumes "\<not> no_document s" and "selectedItems (page_list s) \<noteq> []"
    and "dir_exists env (output_folder env s) \<or> makedirs_ok env (output_folder env s)"
    and "images = List.map_filter (render_page (the (pdf_doc s))) (page_nums (page_list s))"
    and "images \<noteq> []"
    and "save_ok env (os_path_join (output_folder env s) ''merged_pages.png'')"
  shows "snd (extract_pages env s) =
     (if dir_exists env (output_folder env s) then [] else [MakeDirs (output_folder env s)])
     @ [Save (os_path_join (output_folder env s) ''merged_pages.png'')
          (PNG_combined
             \<lparr>cwidth = Max (set (map width images)),
              cheight = sum_list (map height images),
              pastes = map (\<lambda>k. (images ! k, 0, sum_list (map height (take k images))))
                           [0..<length images]\<rparr>)]"
proof -
  have imgs: "collect_images (the (pdf_doc s)) (page_nums (page_list s)) [] = images"
    using assms(4) by (simp add: collect_images_map_filter)
  have layout: "paste_loop images 0
      \<lparr>cwidth = Max (set (map width images)), cheight = sum_list (map height images), pastes = []\<rparr>
    = \<lparr>cwidth = Max (set (map width images)), cheight = sum_list (map height images),
       pastes = map (\<lambda>k. (images ! k, 0, sum_list (map height (take k images))))
                    [0..<length images]\<rparr>"
    by (simp add: paste_loop_layout)
  from assms(1,2,3,5,6) show ?thesis
    unfolding extract_pages_def Let_def imgs layout by auto
qed

lemma extract_separate_pages_saves:
  assumes "\<not> no_document s" and "selectedItems (page_list s) \<noteq> []"
    and "dir_exists env (output_folder env s) \<or> makedirs_ok env (output_folder env s)"
  shows "snd (extract_separate_pages env s) =
     (if dir_exists env (output_folder env s) then [] else [MakeDirs (output_folder env s)])
     @ List.map_filter (page_file env (the (pdf_doc s)) (output_folder env s))
         (page_nums (page_list s))"
  using assms
  unfolding extract_separate_pages_def Let_def separate_loop_map_filter by auto

lemma click_item_appends:
  assumes "distinct (items pl)" and "r < count pl" and "r \<notin> set (page_nums pl)"
  shows "page_nums (click_item r pl) = page_nums pl @ [r]"
proof -
  from assms(1,2) have idx: "index_of (items pl ! r) (items pl) = r"
    by (simp add: count_def index_of_nth)
  have fresh: "items pl ! r \<notin> set (selection pl)"
  proof
    assume "items pl ! r \<in> set (selection pl)"
    then have "index_of (items pl ! r) (items pl) \<in> set (page_nums pl)"
      by (auto simp: page_nums_def selectedItems_def row_def)
    with idx assms(3) show False by simp
  qed
  with assms(2) idx show ?thesis
    by (simp add: click_item_def item_def page_nums_def selectedItems_def row_def)
qed

text \<open>
  C3. The exports do not sort: after the user clicks page 3 and then page 1 of
  a three-page document, the offsets are processed as \<open>[2, 0]\<close> and the saved
  PDF holds page 3 before page 1.
\<close>

theorem export_follows_click_order:
  "page_nums (page_list (run [DropPdf ''a.pdf'' (Inr sample_doc), ClickItem 2, ClickItem 0]))
     = [2, 0]
   \<and> map content sample_doc = [10, 11, 12]
   \<and> snd (extract_as_pdf sample_env ''out.pdf''
            (run [DropPdf ''a.pdf'' (Inr sample_doc), ClickItem 2, ClickItem 0]))
     = [Save ''out.pdf'' (PDF [12, 10])]"
  by code_simp

text \<open>
  C3, as the code has it. In a reachable state with a document loaded, each of
  the three exports processes the selected offsets in the order in which
  \<open>selectedItems()\<close> returns them, unsorted: the new PDF holds the pages in that
  order, the separate export writes its files in that order, and the merged
  export pastes the rendered pages top to bottom in that order. Right after a
  successful \<open>select_pages\<close> that order is ascending; a click on an unselected
  page appends its offset to the end of that order.
\<close>

theorem exports_follow_selectedItems_order:
  assumes "s = run evs" and "pdf_doc s = Some d"
  shows "(d \<noteq> [] \<and> selectedItems (page_list s) \<noteq> [] \<and> path \<noteq> [] \<and> save_ok env path
           \<longrightarrow> snd (extract_as_pdf env path s) =
                 [Save path (PDF (map (\<lambda>n. content (d ! n)) (page_nums (page_list s))))])
         \<and> (d \<noteq> [] \<and> selectedItems (page_list s) \<noteq> []
             \<and> (dir_exists env (output_folder env s) \<or> makedirs_ok env (output_folder env s))
           \<longrightarrow> snd (extract_separate_pages env s) =
                 (if dir_exists env (output_folder env s) then []
                  else [MakeDirs (output_folder env s)])
                 @ List.map_filter (page_file env d (output_folder env s))
                     (page_nums (page_list s)))
         \<and> (d \<noteq> [] \<and> selectedItems (page_list s) \<noteq> []
             \<and> (dir_exists env (output_folder env s) \<or> makedirs_ok env (output_folder env s))
             \<and> images = List.map_filter (render_page d) (page_nums (page_list s))
             \<and> images \<noteq> []
             \<and> save_ok env (os_path_join (output_folder env s) ''merged_pages.png'')
           \<longrightarrow> snd (extract_pages env s) =
                 (if dir_exists env (output_folder env s) then []
                  else [MakeDirs (output_folder env s)])
                 @ [Save (os_path_join (output_folder env s) ''merged_pages.png'')
                      (PNG_combined
                         \<lparr>cwidth = Max (set (map width images)),
                          cheight = sum_list (map height images),
                          pastes = map (\<lambda>k. (images ! k, 0,
                                               sum_list (map height (take k images))))
                                       [0..<length images]\<rparr>)])
         \<and> (fst (select_pages s) = []
              \<longrightarrow> sorted_wrt (<) (page_nums (page_list (snd (select_pages s)))))
         \<and> (r < count (page_list s) \<and> r \<notin> set (page_nums (page_list s))
              \<longrightarrow> page_nums (page_list (step (ClickItem r) s)) = page_nums (page_list s) @ [r])"
proof (intro conjI impI)
  have inv: "app_inv s" using assms(1) by (simp add: run_inv)
  then have dist: "distinct (items (page_list s))"
    by (simp add: app_inv_def list_inv_def)
  have bound: "\<forall>n\<in>set (page_nums (page_list s)). n < length d"
  proof
    fix n
    assume "n \<in> set (page_nums (page_list s))"
    with inv have "n < count (page_list s)"
      by (simp add: app_inv_def page_nums_less_count)
    moreover from inv assms(2) have "count (page_list s) \<le> length d"
      by (simp add: app_inv_def)
    ultimately show "n < length d" by simp
  qed
  {
    assume h: "d \<noteq> [] \<and> selectedItems (page_list s) \<noteq> [] \<and> path \<noteq> [] \<and> save_ok env path"
    from bound have "insert_loop d (page_nums (page_list s)) [] =
        Inr ([] @ map (\<lambda>n. content (d ! n)) (page_nums (page_list s)))"
      by (rule insert_loop_map)
    with h assms(2)
    show "snd (extract_as_pdf env path s) =
            [Save path (PDF (map (\<lambda>n. content (d ! n)) (page_nums (page_list s))))]"
      by (simp add: extract_as_pdf_def no_document_def)
  }
  {
    assume h: "d \<noteq> [] \<and> selectedItems (page_list s) \<noteq> []
             \<and> (dir_exists env (output_folder env s) \<or> makedirs_ok env (output_folder env s))"
    with assms(2) have nd: "\<not> no_document s" by (simp add: no_document_def)
    from h have sel: "selectedItems (page_list s) \<noteq> []"
      and dir: "dir_exists env (output_folder env s) \<or> makedirs_ok env (output_folder env s)"
      by blast+
    from extract_separate_pages_saves [OF nd sel dir] assms(2)
    show "snd (extract_separate_pages env s) =
                 (if dir_exists env (output_folder env s) then []
                  else [MakeDirs (output_folder env s)])
                 @ List.map_filter (page_file env d (output_folder env s))
                     (page_nums (page_list s))"
      by simp
  }
  {
    assume h: "d \<noteq> [] \<and> selectedItems (page_list s) \<noteq> []
             \<and> (dir_exists env (output_folder env s) \<or> makedirs_ok env (output_folder env s))
             \<and> images = List.map_filter (render_page d) (page_nums (page_list s))
             \<and> images \<noteq> []
             \<and> save_ok env (os_path_join (output_folder env s) ''merged_pages.png'')"
    with assms(2) have nd: "\<not> no_document s" by (simp add: no_document_def)
    from h have sel: "selectedItems (page_list s) \<noteq> []"
      and dir: "dir_exists env (output_folder env s) \<or> makedirs_ok env (output_folder env s)"
      and ne: "images \<noteq> []"
      and ok: "save_ok env (os_path_join (output_folder env s) ''merged_pages.png'')"
      by blast+
    from h assms(2)
    have imgs: "images = List.map_filter (render_page (the (pdf_doc s))) (page_nums (page_list s))"
      by simp
    from extract_pages_saves [OF nd sel dir imgs ne ok]
    show "snd (extract_pages env s) =
                 (if dir_exists env (output_folder env s) then []
                  else [MakeDirs (output_folder env s)])
                 @ [Save (os_path_join (output_folder env s) ''merged_pages.png'')
                      (PNG_combined
                         \<lparr>cwidth = Max (set (map width images)),
                          cheight = sum_list (map height images),
                          pastes = map (\<lambda>k. (images ! k, 0,
                                               sum_list (map height (take k images))))
                                       [0..<length images]\<rparr>)]" .
  }
  {
    assume "fst (select_pages s) = []"
    from select_pages_empty_dialog [OF this] obtain pages
      where parse: "parse_page_range (py_strip (range_input s))
                      (int (length (the (pdf_doc s)))) = Inr pages"
        and s': "snd (select_pages s) =
                   s\<lparr>page_list := select_loop pages (clearSelection (page_list s))\<rparr>"
      by blast
    from parse have asc: "sorted_wrt (<) pages" and pos: "\<forall>p\<in>set pages. 1 \<le> p"
      using parse_page_range_sorted by blast+
    have "page_nums (page_list (snd (select_pages s))) =
            map (\<lambda>p. nat (p - 1)) (filter (\<lambda>p. p - 1 < int (count (page_list s))) pages)"
      using s' select_loop_page_nums [OF dist asc pos] by simp
    then show "sorted_wrt (<) (page_nums (page_list (snd (select_pages s))))"
      using offsets_ascending [OF asc pos] by simp
  }
  {
    assume "r < count (page_list s) \<and> r \<notin> set (page_nums (page_list s))"
    then have "page_nums (click_item r (page_list s)) = page_nums (page_list s) @ [r]"
      using dist by (simp add: click_item_appends)
    then show "page_nums (page_list (step (ClickItem r) s)) = page_nums (page_list s) @ [r]"
      by simp
  }
qed

theorem exports_follow_selectedItems_order_witness:
  "snd (extract_as_pdf sample_env ''out.pdf''
          (run [DropPdf ''a.pdf'' (Inr sample_doc), ClickItem 2, ClickItem 0, EditRange ''3,1'']))
     = [Save ''out.pdf'' (PDF [12, 10])]
   \<and> snd (extract_separate_pages sample_env
          (run [DropPdf ''a.pdf'' (Inr sample_doc), ClickItem 2, ClickItem 0, EditRange ''3,1'']))
     = [MakeDirs ''/home/user/extracted_images'',
        Save ''/home/user/extracted_images/page_3.png''
          (PNG \<lparr>width = 500, height = 700, samples = [12]\<rparr>),
        Save ''/home/user/extracted_images/page_1.png''
          (PNG \<lparr>width = 600, height = 800, samples = [10]\<rparr>)]
   \<and> snd (extract_pages sample_env
          (run [DropPdf ''a.pdf'' (Inr sample_doc), ClickItem 2, ClickItem 0, EditRange ''3,1'']))
     = [MakeDirs ''/home/user/extracted_images'',
        Save ''/home/user/extracted_images/merged_pages.png''
          (PNG_combined
             \<lparr>cwidth = 600, cheight = 1500,
              pastes = [(\<lparr>width = 500, height = 700, samples = [12]\<rparr>, 0, 0),
                        (\<lparr>width = 600, height = 800, samples = [10]\<rparr>, 0, 700)]\<rparr>)]
   \<and> sorted_wrt (<) (page_nums (page_list (snd (select_pages
          (run [DropPdf ''a.pdf'' (Inr sample_doc), ClickItem 2, ClickItem 0, EditRange ''3,1''])))))
   \<and> page_nums (page_list (step (ClickItem (Suc 0))
          (run [DropPdf ''a.pdf'' (Inr sample_doc), ClickItem 2, ClickItem 0, EditRange ''3,1''])))
     = [2, 0, Suc 0]"
proof -
  let ?evs = "[DropPdf ''a.pdf'' (Inr sample_doc), ClickItem 2, ClickItem 0, EditRange ''3,1'']"
  let ?images = "[\<lparr>width = 500, height = 700, samples = [12]\<rparr>,
                  \<lparr>width = 600, height = 800, samples = [10::nat]\<rparr>]"
  have doc: "pdf_doc (run ?evs) = Some sample_doc" by code_simp
  have ne: "sample_doc \<noteq> []" by code_simp
  have sel: "selectedItems (page_list (run ?evs)) \<noteq> []" by code_simp
  have ok: "save_ok sample_env ''out.pdf''" by code_simp
  have folder: "output_folder sample_env (run ?evs) = ''/home/user/extracted_images''"
    by code_simp
  have dir: "dir_exists sample_env (output_folder sample_env (run ?evs))
             \<or> makedirs_ok sample_env (output_folder sample_env (run ?evs))" by code_simp
  have nd: "\<not> dir_exists sample_env ''/home/user/extracted_images''" by code_simp
  have imgs: "List.map_filter (render_page sample_doc) (page_nums (page_list (run ?evs))) = ?images"
    by code_simp
  have mok: "save_ok sample_env
               (os_path_join (output_folder sample_env (run ?evs)) ''merged_pages.png'')"
    by code_simp
  have path: "os_path_join ''/home/user/extracted_images'' ''merged_pages.png''
              = ''/home/user/extracted_images/merged_pages.png''" by code_simp
  have files: "List.map_filter (page_file sample_env sample_doc ''/home/user/extracted_images'')
                 (page_nums (page_list (run ?evs)))
     = [Save ''/home/user/extracted_images/page_3.png''
          (PNG \<lparr>width = 500, height = 700, samples = [12]\<rparr>),
        Save ''/home/user/extracted_images/page_1.png''
          (PNG \<lparr>width = 600, height = 800, samples = [10]\<rparr>)]"
    by code_simp
  have ds: "fst (select_pages (run ?evs)) = []" by code_simp
  have pdf: "map (\<lambda>n. content (sample_doc ! n)) (page_nums (page_list (run ?evs))) = [12, 10]"
    by code_simp
  have cnt: "Suc 0 < count (page_list (run ?evs))" by code_simp
  have notin: "Suc 0 \<notin> set (page_nums (page_list (run ?evs)))" by code_simp
  have app: "page_nums (page_list (run ?evs)) @ [Suc 0] = [2, 0, Suc 0]" by code_simp
  have upt: "[0..<2] = [0, Suc 0]" by (simp add: upt_conv_Cons)
  show ?thesis
    using exports_follow_selectedItems_order [OF refl doc, where path = "''out.pdf''"
        and env = sample_env and r = "Suc 0"
        and images = "List.map_filter (render_page sample_doc) (page_nums (page_list (run ?evs)))"]
      ne sel ok dir nd mok ds cnt notin
    by (simp add: folder path files pdf app upt imgs)
qed



text \<open>
  C9. With a document loaded, a non-empty selection and an output folder that
  exists or can be created, the separate export writes \<open>page_<N>.png\<close>, with
  \<open>N\<close> the offset plus one, for every selected page that renders and saves,
  skips the others, reports the number of files written, and shows "Failed to
  extract any pages" exactly when that number is zero.
\<close>

theorem separate_images_skip_failures:
  assumes "\<not> no_document s" and "selectedItems (page_list s) \<noteq> []"
    and "dir_exists env (output_folder env s) \<or> makedirs_ok env (output_folder env s)"
    and "saved = List.map_filter (page_file env (the (pdf_doc s)) (output_folder env s))
                   (page_nums (page_list s))"
  shows "extract_separate_pages env s =
    ((if saved = [] then [ShowError ''Failed to extract any pages'']
      else [ShowSuccess (''Extracted '' @ py_str (length saved) @ '' pages to:''
                         @ [CHR 0x0A] @ output_folder env s)]),
     (if dir_exists env (output_folder env s) then [] else [MakeDirs (output_folder env s)])
     @ saved)
    \<and> (\<forall>d folder n. render_page d n = None \<longrightarrow> page_file env d folder n = None)
    \<and> (\<forall>d folder n img. render_page d n = Some img
          \<and> save_ok env (os_path_join folder (''page_'' @ py_str (n + 1) @ ''.png''))
        \<longrightarrow> page_file env d folder n =
              Some (Save (os_path_join folder (''page_'' @ py_str (n + 1) @ ''.png'')) (PNG img)))"
proof (intro conjI)
  from assms show "extract_separate_pages env s =
    ((if saved = [] then [ShowError ''Failed to extract any pages'']
      else [ShowSuccess (''Extracted '' @ py_str (length saved) @ '' pages to:''
                         @ [CHR 0x0A] @ output_folder env s)]),
     (if dir_exists env (output_folder env s) then [] else [MakeDirs (output_folder env s)])
     @ saved)"
    unfolding extract_separate_pages_def Let_def separate_loop_map_filter by auto
qed (simp_all add: page_file_def)

theorem separate_images_skip_failures_witness:
  "extract_separate_pages sample_env
          (run [DropPdf ''a.pdf'' (Inr sample_doc), EditRange ''1-3'', ClickSelect])
   = ([ShowSuccess (''Extracted 2 pages to:'' @ [CHR 0x0A] @ ''/home/user/extracted_images'')],
      [MakeDirs ''/home/user/extracted_images'',
       Save ''/home/user/extracted_images/page_1.png''
         (PNG \<lparr>width = 600, height = 800, samples = [10]\<rparr>),
       Save ''/home/user/extracted_images/page_3.png''
         (PNG \<lparr>width = 500, height = 700, samples = [12]\<rparr>)])"
proof -
  let ?s = "run [DropPdf ''a.pdf'' (Inr sample_doc), EditRange ''1-3'', ClickSelect]"
  let ?saved = "[Save ''/home/user/extracted_images/page_1.png''
                   (PNG \<lparr>width = 600, height = 800, samples = [10]\<rparr>),
                 Save ''/home/user/extracted_images/page_3.png''
                   (PNG \<lparr>width = 500, height = 700, samples = [12]\<rparr>)]"
  have a: "\<not> no_document ?s" by code_simp
  have b: "selectedItems (page_list ?s) \<noteq> []" by code_simp
  have nums: "page_nums (page_list ?s) = [0, 1, 2]" by code_simp
  have folder: "output_folder sample_env ?s = ''/home/user/extracted_images''" by code_simp
  have c: "dir_exists sample_env (output_folder sample_env ?s)
           \<or> makedirs_ok sample_env (output_folder sample_env ?s)" by code_simp
  have nd: "\<not> dir_exists sample_env ''/home/user/extracted_images''" by code_simp
  have d: "?saved = List.map_filter
             (page_file sample_env (the (pdf_doc ?s)) (output_folder sample_env ?s))
             (page_nums (page_list ?s))"
    by code_simp
  have two: "py_str (Suc (Suc 0)) = ''2''" by code_simp
  show ?thesis
    using separate_images_skip_failures [OF a b c d] nd
    by (simp add: folder two)
qed

end
